theory Spec2Isabelle
  imports Main
begin

section \<open>Data model\<close>

text \<open>
  A shallow embedding of the grid path finder of \<^verbatim>\<open>astar.go\<close> and of the file that
  declares \<^verbatim>\<open>Node\<close>.

  Go's \<^verbatim>\<open>int\<close> is modelled by the unbounded \<^typ>\<open>int\<close>. The model agrees with the
  code as long as no coordinate, cost or step counter leaves the range in which 64-bit
  arithmetic does not wrap and \<^verbatim>\<open>float64\<close> represents every integer exactly (absolute
  values below \<open>2 ^ 53\<close>); the heuristic \<^verbatim>\<open>H\<close> goes through \<^verbatim>\<open>float64\<close>.

  \<^verbatim>\<open>Node.parent\<close> is a pointer. \<^verbatim>\<open>GetNeighborNodes\<close> takes its node by value and stores
  the address of that private copy in the four neighbours; the copy is never written
  again. The pointer therefore denotes an immutable snapshot of the predecessor, and
  the model stores the snapshot itself (\<open>None\<close> is the nil pointer).
\<close>

datatype Node = Node
  (f: int) (g: int) (h: int) (X: int) (Y: int) (Weighting: int) (parent: "Node option")

record Config =
  GridWidth :: int
  GridHeight :: int
  InvalidNodes :: "Node list"
  WeightedNodes :: "Node list"

text \<open>
  The interface \<^verbatim>\<open>IContext\<close>; a query receives \<open>None\<close> for the nil interface. The two
  methods are modelled as pure functions of the coordinates.
\<close>

record IContext =
  IsInBlock :: "int \<Rightarrow> int \<Rightarrow> bool"
  IsNearEnough :: "int \<Rightarrow> int \<Rightarrow> bool"

datatype error =
  ErrorNoPath
  | ErrorGridTooSmall
  | ErrorEmptySet
  | ErrorCannotGetMinF error

definition StepsNoLimit :: int where
  "StepsNoLimit = - 1"

section \<open>The working set\<close>

text \<open>
  Modelled from the spec: the type \<^verbatim>\<open>List\<close> of the open and the closed list is declared
  in a file of the repository that is not among the sources. The spec (sections 3 and
  4.1) describes an ordered collection of nodes whose membership is keyed by the
  coordinates only. The model is the list of the nodes in the order of their insertion.
\<close>

type_synonym NodeList = "Node list"

definition samePos :: "Node \<Rightarrow> Node \<Rightarrow> bool" where
  "samePos n m = (X n = X m \<and> Y n = Y m)"

text \<open>
  Modelled from the spec: the method \<^verbatim>\<open>Add\<close> of \<^verbatim>\<open>List\<close>, which takes any number of nodes.
  It inserts, and does not itself look for a node with the same coordinates.
\<close>

definition Add :: "NodeList \<Rightarrow> Node list \<Rightarrow> NodeList" where
  "Add l nodes = l @ nodes"

text \<open>
  Modelled from the spec: the method \<^verbatim>\<open>Contains\<close> of \<^verbatim>\<open>List\<close>, true iff a node with the
  same coordinates is present.
\<close>

definition Contains :: "NodeList \<Rightarrow> Node \<Rightarrow> bool" where
  "Contains l n = list_ex (\<lambda>m. samePos m n) l"

text \<open>
  Modelled from the spec: the method \<^verbatim>\<open>Remove\<close> of \<^verbatim>\<open>List\<close>, which deletes the entry that
  matches the coordinates of the node and does nothing when there is none. The path
  finder removes from the open list only, where it inserts a node only when no node with
  the same coordinates is present; the model deletes the first entry that matches.
\<close>

fun Remove :: "NodeList \<Rightarrow> Node \<Rightarrow> NodeList" where
  "Remove [] n = []"
| "Remove (m # l) n = (if samePos m n then l else m # Remove l n)"

text \<open>Modelled from the spec: the method \<^verbatim>\<open>IsEmpty\<close> of \<^verbatim>\<open>List\<close>.\<close>

definition IsEmpty :: "NodeList \<Rightarrow> bool" where
  "IsEmpty l = (l = [])"

text \<open>
  Modelled from the spec: the method \<^verbatim>\<open>Clear\<close> of \<^verbatim>\<open>List\<close>, which empties the set and
  leaves it usable.
\<close>

definition Clear :: "NodeList \<Rightarrow> NodeList" where
  "Clear l = []"

text \<open>
  Modelled from the spec: the method \<^verbatim>\<open>GetMinFNode\<close> of \<^verbatim>\<open>List\<close>, which returns and does
  not remove the node with the smallest \<open>f\<close>, the first inserted one among equals, and
  fails on an empty set. \<open>minF\<close> is the scan with the best node so far.
\<close>

fun minF :: "Node \<Rightarrow> Node list \<Rightarrow> Node" where
  "minF best [] = best"
| "minF best (n # l) = minF (if f n < f best then n else best) l"

fun GetMinFNode :: "NodeList \<Rightarrow> error + Node" where
  "GetMinFNode [] = Inl ErrorEmptySet"
| "GetMinFNode (n # l) = Inr (minF n l)"

section \<open>The path finder\<close>

record PathFinder =
  config :: Config
  openList :: NodeList
  closedList :: NodeList
  startNode :: Node
  endNode :: Node
  steps :: int

definition zeroNode :: Node where
  "zeroNode = Node 0 0 0 0 0 0 None"

text \<open>\<^verbatim>\<open>init\<close> seeds the closed list with the invalid nodes of the configuration.\<close>

definition init :: "PathFinder \<Rightarrow> PathFinder" where
  "init a = a\<lparr>closedList := Add (closedList a) (InvalidNodes (config a))\<rparr>"

text \<open>The composite literal \<^verbatim>\<open>&PathFinder{config: config}\<close>: every other field has its zero value.\<close>

definition newPathFinder :: "Config \<Rightarrow> PathFinder" where
  "newPathFinder cfg = \<lparr>config = cfg, openList = [], closedList = [],
                          startNode = zeroNode, endNode = zeroNode, steps = 0\<rparr>"

definition New :: "Config \<Rightarrow> error + PathFinder" where
  "New cfg =
     (if GridWidth cfg < 2 \<or> GridHeight cfg < 2 then Inl ErrorGridTooSmall
      else Inr (init (newPathFinder cfg)))"

definition H :: "Node \<Rightarrow> Node \<Rightarrow> int" where
  "H nodeA nodeB = \<bar>X nodeA - X nodeB\<bar> + \<bar>Y nodeA - Y nodeB\<bar>"

definition isAccessible :: "PathFinder \<Rightarrow> IContext option \<Rightarrow> Node \<Rightarrow> bool" where
  "isAccessible a ctx node =
     (if X node < 0 \<or> Y node < 0 \<or> X node > GridWidth (config a) - 1
         \<or> Y node > GridHeight (config a) - 1 then False
      else if (case ctx of None \<Rightarrow> False | Some c \<Rightarrow> IsInBlock c (X node) (Y node)) then False
      else if Contains (closedList a) node then False
      else True)"

definition GetNeighborNodes :: "PathFinder \<Rightarrow> IContext option \<Rightarrow> Node \<Rightarrow> Node list" where
  "GetNeighborNodes a ctx node =
     (let upNode = Node 0 0 0 (X node) (Y node + 1) 0 (Some node);
          downNode = Node 0 0 0 (X node) (Y node - 1) 0 (Some node);
          leftNode = Node 0 0 0 (X node - 1) (Y node) 0 (Some node);
          rightNode = Node 0 0 0 (X node + 1) (Y node) 0 (Some node)
      in (if isAccessible a ctx upNode then [upNode] else [])
       @ (if isAccessible a ctx downNode then [downNode] else [])
       @ (if isAccessible a ctx leftNode then [leftNode] else [])
       @ (if isAccessible a ctx rightNode then [rightNode] else []))"

definition IsEndNode :: "IContext option \<Rightarrow> Node \<Rightarrow> Node \<Rightarrow> bool" where
  "IsEndNode ctx checkNode endN =
     (if (case ctx of None \<Rightarrow> False | Some c \<Rightarrow> IsNearEnough c (X checkNode) (Y checkNode))
      then True
      else X checkNode = X endN \<and> Y checkNode = Y endN)"

text \<open>The loop of \<^verbatim>\<open>calculateNode\<close> over the weighted nodes, on the running value of \<open>g\<close>.\<close>

fun addWeighting :: "Node \<Rightarrow> Node list \<Rightarrow> int \<Rightarrow> int" where
  "addWeighting node [] gv = gv"
| "addWeighting node (wNode # ws) gv =
     addWeighting node ws
       (if X node = X wNode \<and> Y node = Y wNode then gv + Weighting wNode else gv)"

definition calculateNode :: "PathFinder \<Rightarrow> Node \<Rightarrow> Node" where
  "calculateNode a node =
     (let g1 = g node + 1;
          g2 = addWeighting node (WeightedNodes (config a)) g1;
          h1 = H (Node (f node) g2 (h node) (X node) (Y node) (Weighting node) (parent node))
                 (endNode a)
      in Node (g2 + h1) g2 h1 (X node) (Y node) (Weighting node) (parent node))"

text \<open>
  \<^verbatim>\<open>getNodePath\<close>: the given node, then every predecessor that has a predecessor of its
  own. \<open>parentPath\<close> is the loop, entered with the current node.
\<close>

fun parentPath :: "Node \<Rightarrow> Node list" where
  "parentPath (Node _ _ _ _ _ _ None) = []"
| "parentPath (Node _ _ _ _ _ _ (Some parentNode)) =
     (case parent parentNode of
        None \<Rightarrow> []
      | Some _ \<Rightarrow> parentNode # parentPath parentNode)"

definition getNodePath :: "Node \<Rightarrow> Node list" where
  "getNodePath currentNode = currentNode # parentPath currentNode"

section \<open>The search loop\<close>

text \<open>
  The body of the inner loop of \<^verbatim>\<open>doFindPath\<close> over the neighbours: a neighbour in the
  closed list is skipped, the others are scored and enter the open list unless a node
  with the same coordinates is there already.
\<close>

definition visitNeighbor :: "PathFinder \<Rightarrow> Node \<Rightarrow> PathFinder" where
  "visitNeighbor a neighbor =
     (if Contains (closedList a) neighbor then a
      else let scored = calculateNode a neighbor
           in if \<not> Contains (openList a) scored
              then a\<lparr>openList := Add (openList a) [scored]\<rparr>
              else a)"

text \<open>
  One pass through the body of the outer loop, given the result of \<^verbatim>\<open>GetMinFNode\<close>:
  it either returns from \<^verbatim>\<open>doFindPath\<close> or goes on with the next pass.
\<close>

datatype step = Return "error + Node list" PathFinder | Continue PathFinder

definition iteration ::
  "IContext option \<Rightarrow> Node \<Rightarrow> int \<Rightarrow> PathFinder \<Rightarrow> error + Node \<Rightarrow> step" where
  "iteration ctx endN maxSteps a r =
     (case r of
        Inl err \<Rightarrow> Return (Inl (ErrorCannotGetMinF err)) a
      | Inr currentNode \<Rightarrow>
          let a1 = a\<lparr>openList := Remove (openList a) currentNode\<rparr>;
              a2 = a1\<lparr>closedList := Add (closedList a1) [currentNode]\<rparr>;
              a3 = a2\<lparr>steps := steps a2 + 1\<rparr>
          in if IsEndNode ctx currentNode endN then Return (Inr (getNodePath currentNode)) a3
             else if maxSteps > 0 \<and> steps a3 \<ge> maxSteps
               then Return (Inr (getNodePath currentNode)) a3
             else Continue (foldl visitNeighbor a3 (GetNeighborNodes a3 ctx currentNode)))"

subsection \<open>Termination of the loop\<close>

text \<open>
  Every pass removes a node from the open list, and every node that enters the open list
  takes a cell of the grid that was neither open nor closed. Twice the number of such
  cells plus the length of the open list decreases on every pass, whatever the state.
\<close>

definition occupied :: "NodeList \<Rightarrow> int \<times> int \<Rightarrow> bool" where
  "occupied l p = (\<exists>m \<in> set l. (X m, Y m) = p)"

definition freeCells :: "PathFinder \<Rightarrow> (int \<times> int) set" where
  "freeCells a =
     {p \<in> {0 .. GridWidth (config a) - 1} \<times> {0 .. GridHeight (config a) - 1}.
        \<not> occupied (closedList a) p \<and> \<not> occupied (openList a) p}"

definition searchMeasure :: "PathFinder \<Rightarrow> nat" where
  "searchMeasure a = 2 * card (freeCells a) + length (openList a)"

lemma finite_freeCells: "finite (freeCells a)"
  unfolding freeCells_def by simp

lemma Contains_occupied: "Contains l n = occupied l (X n, Y n)"
  by (auto simp: Contains_def occupied_def samePos_def list_ex_iff)

lemma calculateNode_pos [simp]:
  "X (calculateNode a n) = X n" "Y (calculateNode a n) = Y n" "parent (calculateNode a n) = parent n"
  by (simp_all add: calculateNode_def Let_def)

lemma visitNeighbor_config [simp]: "config (visitNeighbor a n) = config a"
  and visitNeighbor_closed [simp]: "closedList (visitNeighbor a n) = closedList a"
  and visitNeighbor_steps [simp]: "steps (visitNeighbor a n) = steps a"
  and visitNeighbor_endNode [simp]: "endNode (visitNeighbor a n) = endNode a"
  and visitNeighbor_startNode [simp]: "startNode (visitNeighbor a n) = startNode a"
  by (simp_all add: visitNeighbor_def Let_def)

lemma foldl_visitNeighbor_fields [simp]:
  "config (foldl visitNeighbor a ns) = config a"
  "closedList (foldl visitNeighbor a ns) = closedList a"
  "steps (foldl visitNeighbor a ns) = steps a"
  "endNode (foldl visitNeighbor a ns) = endNode a"
  "startNode (foldl visitNeighbor a ns) = startNode a"
  by (induction ns arbitrary: a) simp_all

definition inBounds :: "Config \<Rightarrow> Node \<Rightarrow> bool" where
  "inBounds cfg n = (0 \<le> X n \<and> 0 \<le> Y n \<and> X n \<le> GridWidth cfg - 1 \<and> Y n \<le> GridHeight cfg - 1)"

lemma visitNeighbor_measure:
  assumes "inBounds (config a) n"
  shows "searchMeasure (visitNeighbor a n) \<le> searchMeasure a"
proof (cases "\<not> Contains (closedList a) n \<and> \<not> Contains (openList a) n")
  case False
  then show ?thesis by (auto simp: visitNeighbor_def Let_def Contains_occupied)
next
  case True
  let ?a' = "a\<lparr>openList := Add (openList a) [calculateNode a n]\<rparr>"
  have v: "visitNeighbor a n = ?a'"
    using True by (simp add: visitNeighbor_def Let_def Contains_occupied)
  have mem: "(X n, Y n) \<in> freeCells a"
    using True assms by (simp add: freeCells_def inBounds_def Contains_occupied)
  have "freeCells ?a' = freeCells a - {(X n, Y n)}"
    by (auto simp: freeCells_def occupied_def Add_def)
  then have "card (freeCells ?a') = card (freeCells a) - 1"
    using mem finite_freeCells by simp
  moreover have "card (freeCells a) \<ge> 1"
    using mem finite_freeCells[of a] by (metis One_nat_def Suc_leI card_gt_0_iff empty_iff)
  ultimately show ?thesis
    unfolding v searchMeasure_def by (simp add: Add_def)
qed

lemma foldl_visitNeighbor_measure:
  "\<forall>n \<in> set ns. inBounds (config a) n \<Longrightarrow>
   searchMeasure (foldl visitNeighbor a ns) \<le> searchMeasure a"
proof (induction ns arbitrary: a)
  case Nil
  then show ?case by simp
next
  case (Cons n ns)
  have "searchMeasure (foldl visitNeighbor (visitNeighbor a n) ns) \<le> searchMeasure (visitNeighbor a n)"
    using Cons.prems by (intro Cons.IH) simp
  also have "\<dots> \<le> searchMeasure a"
    using Cons.prems by (intro visitNeighbor_measure) simp
  finally show ?case by simp
qed

lemma isAccessible_inBounds: "isAccessible a ctx n \<Longrightarrow> inBounds (config a) n"
  by (auto simp: isAccessible_def inBounds_def split: if_splits)

lemma GetNeighborNodes_accessible:
  "n \<in> set (GetNeighborNodes a ctx c) \<Longrightarrow> isAccessible a ctx n"
  by (auto simp: GetNeighborNodes_def Let_def split: if_splits)

lemma minF_mem: "minF b l \<in> set (b # l)"
  by (induction l arbitrary: b) auto

lemma GetMinFNode_mem: "GetMinFNode l = Inr c \<Longrightarrow> c \<in> set l"
  using minF_mem by (cases l) auto

lemma length_Remove: "c \<in> set l \<Longrightarrow> length (Remove l c) = length l - 1 \<and> l \<noteq> []"
  by (induction l) (auto simp: samePos_def)

lemma set_Remove_subset: "set (Remove l c) \<subseteq> set l"
  by (induction l) auto

lemma Remove_keeps: "\<not> samePos m c \<Longrightarrow> m \<in> set l \<Longrightarrow> m \<in> set (Remove l c)"
  by (induction l) auto

lemma iteration_measure:
  assumes "GetMinFNode (openList a) = Inr c"
    and "iteration ctx endN maxSteps a (Inr c) = Continue a'"
  shows "searchMeasure a' < searchMeasure a"
proof -
  let ?a3 = "a\<lparr>openList := Remove (openList a) c, closedList := Add (closedList a) [c],
                steps := steps a + 1\<rparr>"
  have a': "a' = foldl visitNeighbor ?a3 (GetNeighborNodes ?a3 ctx c)"
    using assms(2) by (simp add: iteration_def Let_def split: if_splits)
  have cin: "c \<in> set (openList a)"
    using assms(1) by (rule GetMinFNode_mem)
  have "freeCells ?a3 \<subseteq> freeCells a"
  proof
    fix p assume p: "p \<in> freeCells ?a3"
    have "\<not> occupied (openList a) p"
    proof
      assume "occupied (openList a) p"
      then obtain m where m: "m \<in> set (openList a)" "(X m, Y m) = p"
        by (auto simp: occupied_def)
      show False
      proof (cases "samePos m c")
        case True
        then have "occupied (Add (closedList a) [c]) p"
          using m by (auto simp: occupied_def Add_def samePos_def)
        then show False using p by (simp add: freeCells_def)
      next
        case False
        then have "m \<in> set (Remove (openList a) c)"
          using m(1) by (rule Remove_keeps)
        then have "occupied (Remove (openList a) c) p"
          using m(2) by (auto simp: occupied_def)
        then show False using p by (simp add: freeCells_def)
      qed
    qed
    then show "p \<in> freeCells a"
      using p by (auto simp: freeCells_def occupied_def Add_def)
  qed
  then have "card (freeCells ?a3) \<le> card (freeCells a)"
    by (simp add: card_mono finite_freeCells)
  moreover have "length (openList ?a3) = length (openList a) - 1" "openList a \<noteq> []"
    using length_Remove[OF cin] by simp_all
  ultimately have "searchMeasure ?a3 < searchMeasure a"
    unfolding searchMeasure_def by (cases "openList a") simp_all
  moreover have "searchMeasure a' \<le> searchMeasure ?a3"
    unfolding a'
    by (intro foldl_visitNeighbor_measure ballI isAccessible_inBounds[of _ ctx] GetNeighborNodes_accessible[of _ _ _ c])
  ultimately show ?thesis by simp
qed

text \<open>The outer loop \<^verbatim>\<open>for !a.openList.IsEmpty()\<close> with the final \<^verbatim>\<open>return nil, ErrorNoPath\<close>.\<close>

function doFindPath_loop ::
  "IContext option \<Rightarrow> Node \<Rightarrow> int \<Rightarrow> PathFinder \<Rightarrow> (error + Node list) \<times> PathFinder" where
  "doFindPath_loop ctx endN maxSteps a =
     (if IsEmpty (openList a) then (Inl ErrorNoPath, a)
      else case iteration ctx endN maxSteps a (GetMinFNode (openList a)) of
             Return r a' \<Rightarrow> (r, a')
           | Continue a' \<Rightarrow> doFindPath_loop ctx endN maxSteps a')"
  by pat_completeness auto

termination
proof (relation "measure (\<lambda>(ctx, endN, maxSteps, a). searchMeasure a)")
  show "wf (measure (\<lambda>(ctx, endN, maxSteps, a). searchMeasure a))" by simp
next
  fix ctx endN maxSteps a a'
  assume ne: "\<not> IsEmpty (openList a)"
    and it: "iteration ctx endN maxSteps a (GetMinFNode (openList a)) = Continue a'"
  from ne obtain c where c: "GetMinFNode (openList a) = Inr c"
    by (cases "openList a") (auto simp: IsEmpty_def)
  from iteration_measure[OF c] it c
  show "((ctx, endN, maxSteps, a'), (ctx, endN, maxSteps, a))
          \<in> measure (\<lambda>(ctx, endN, maxSteps, a). searchMeasure a)"
    by simp
qed

declare doFindPath_loop.simps [simp del]

text \<open>
  \<^verbatim>\<open>doFindPath\<close>: \<open>beginSearch\<close> is the state in which the loop is entered, and the
  deferred function clears both lists on every way out. The new state of the path finder
  is returned beside the result.
\<close>

definition beginSearch :: "PathFinder \<Rightarrow> Node \<Rightarrow> Node \<Rightarrow> PathFinder" where
  "beginSearch a startN endN =
     (let a1 = a\<lparr>startNode := startN, endNode := endN, steps := 0\<rparr>
      in a1\<lparr>openList := Add (openList a1) [startN]\<rparr>)"

definition doFindPath ::
  "PathFinder \<Rightarrow> IContext option \<Rightarrow> Node \<Rightarrow> Node \<Rightarrow> int \<Rightarrow> (error + Node list) \<times> PathFinder" where
  "doFindPath a ctx startN endN maxSteps =
     (let (r, a3) = doFindPath_loop ctx endN maxSteps (beginSearch a startN endN)
      in (r, a3\<lparr>openList := Clear (openList a3), closedList := Clear (closedList a3)\<rparr>))"

definition FindPath ::
  "PathFinder \<Rightarrow> IContext option \<Rightarrow> Node \<Rightarrow> Node \<Rightarrow> (error + Node list) \<times> PathFinder" where
  "FindPath a ctx startN endN = doFindPath a ctx startN endN StepsNoLimit"

definition FindPathEx ::
  "PathFinder \<Rightarrow> IContext option \<Rightarrow> Node \<Rightarrow> Node \<Rightarrow> int \<Rightarrow> (error + Node list) \<times> PathFinder" where
  "FindPathEx a ctx startN endN maxSteps = doFindPath a ctx startN endN maxSteps"

subsection \<open>Facts about the working set and the inner loop\<close>

lemma GetMinFNode_nonempty: "\<not> IsEmpty l \<Longrightarrow> \<exists>c. GetMinFNode l = Inr c"
  by (cases l) (simp_all add: IsEmpty_def)

lemma GetMinFNode_error: "GetMinFNode l = Inl e \<Longrightarrow> IsEmpty l"
  by (cases l) (simp_all add: IsEmpty_def)

lemma minF_le: "f (minF b l) \<le> f b \<and> (\<forall>n \<in> set l. f (minF b l) \<le> f n)"
proof (induction l arbitrary: b)
  case Nil
  then show ?case by simp
next
  case (Cons m l)
  show ?case
    using Cons.IH[of "if f m < f b then m else b"] by (auto split: if_splits)
qed

lemma GetMinFNode_le: "GetMinFNode l = Inr c \<Longrightarrow> n \<in> set l \<Longrightarrow> f c \<le> f n"
  using minF_le by (cases l) fastforce+

lemma calculateNode_cong:
  "config a' = config a \<Longrightarrow> endNode a' = endNode a \<Longrightarrow> calculateNode a' n = calculateNode a n"
  by (simp add: calculateNode_def)

lemma visitNeighbor_open:
  "n \<in> set (openList (visitNeighbor a nb)) \<Longrightarrow>
   n \<in> set (openList a) \<or> (n = calculateNode a nb \<and> \<not> Contains (closedList a) nb)"
  by (auto simp: visitNeighbor_def Let_def Add_def split: if_splits)

lemma foldl_visitNeighbor_open:
  "n \<in> set (openList (foldl visitNeighbor a ns)) \<Longrightarrow>
   n \<in> set (openList a) \<or> (\<exists>nb \<in> set ns. n = calculateNode a nb \<and> \<not> Contains (closedList a) nb)"
proof (induction ns arbitrary: a)
  case Nil
  then show ?case by simp
next
  case (Cons m ns)
  from Cons.prems have "n \<in> set (openList (foldl visitNeighbor (visitNeighbor a m) ns))"
    by simp
  from Cons.IH[OF this] show ?case
    using visitNeighbor_open[of n a m]
    by (auto simp: calculateNode_cong[of "visitNeighbor a m" a])
qed

lemma visitNeighbor_mono: "set (openList a) \<subseteq> set (openList (visitNeighbor a nb))"
  by (auto simp: visitNeighbor_def Let_def Add_def)

lemma foldl_visitNeighbor_mono: "set (openList a) \<subseteq> set (openList (foldl visitNeighbor a ns))"
proof (induction ns arbitrary: a)
  case Nil
  then show ?case by simp
next
  case (Cons m ns)
  show ?case using visitNeighbor_mono[of a m] Cons.IH[of "visitNeighbor a m"] by auto
qed

lemma Contains_mono: "set l \<subseteq> set l' \<Longrightarrow> Contains l n \<Longrightarrow> Contains l' n"
  by (auto simp: Contains_def list_ex_iff)

lemma visitNeighbor_covers:
  "\<not> Contains (closedList a) nb \<Longrightarrow> Contains (openList (visitNeighbor a nb)) nb"
  by (auto simp: visitNeighbor_def Let_def Add_def Contains_def list_ex_iff samePos_def)

lemma foldl_visitNeighbor_covers:
  "nb \<in> set ns \<Longrightarrow> \<not> Contains (closedList a) nb \<Longrightarrow>
   Contains (openList (foldl visitNeighbor a ns)) nb"
proof (induction ns arbitrary: a)
  case Nil
  then show ?case by simp
next
  case (Cons m ns)
  show ?case
  proof (cases "nb = m")
    case True
    have "Contains (openList (visitNeighbor a m)) nb"
      using Cons.prems True by (simp add: visitNeighbor_covers)
    then show ?thesis
      using foldl_visitNeighbor_mono[of "visitNeighbor a m" ns] Contains_mono by auto
  next
    case False
    then show ?thesis using Cons.prems Cons.IH[of "visitNeighbor a m"] by simp
  qed
qed

lemma iteration_Continue:
  "iteration ctx endN maxSteps a (Inr c) = Continue a' \<Longrightarrow>
   a' = foldl visitNeighbor
          (a\<lparr>openList := Remove (openList a) c, closedList := Add (closedList a) [c],
              steps := steps a + 1\<rparr>)
          (GetNeighborNodes
             (a\<lparr>openList := Remove (openList a) c, closedList := Add (closedList a) [c],
                 steps := steps a + 1\<rparr>) ctx c)
   \<and> \<not> IsEndNode ctx c endN \<and> \<not> (maxSteps > 0 \<and> steps a + 1 \<ge> maxSteps)"
  by (simp add: iteration_def Let_def split: if_splits)

lemma iteration_Return:
  "iteration ctx endN maxSteps a (Inr c) = Return r a' \<Longrightarrow>
   r = Inr (getNodePath c)
   \<and> a' = a\<lparr>openList := Remove (openList a) c, closedList := Add (closedList a) [c],
              steps := steps a + 1\<rparr>
   \<and> (IsEndNode ctx c endN \<or> (maxSteps > 0 \<and> steps a + 1 \<ge> maxSteps))"
  by (simp add: iteration_def Let_def split: if_splits)

lemma doFindPath_loop_error:
  "fst (doFindPath_loop ctx endN maxSteps a) = Inl err \<Longrightarrow> err = ErrorNoPath"
proof (induction ctx endN maxSteps a rule: doFindPath_loop.induct)
  case (1 ctx endN maxSteps a)
  show ?case
  proof (cases "IsEmpty (openList a)")
    case True
    then show ?thesis
      using "1.prems" by (simp add: doFindPath_loop.simps[of ctx endN maxSteps a])
  next
    case False
    then obtain c where c: "GetMinFNode (openList a) = Inr c"
      using GetMinFNode_nonempty by blast
    show ?thesis
    proof (cases "iteration ctx endN maxSteps a (Inr c)")
      case (Return r a')
      then show ?thesis
        using False c "1.prems" iteration_Return[OF Return]
        by (simp add: doFindPath_loop.simps[of ctx endN maxSteps a])
    next
      case (Continue a')
      then show ?thesis
        using False c "1.prems" "1.IH"[of a']
        by (simp add: doFindPath_loop.simps[of ctx endN maxSteps a])
    qed
  qed
qed

lemma doFindPath_loop_goal:
  "maxSteps \<le> 0 \<Longrightarrow> fst (doFindPath_loop ctx endN maxSteps a) = Inr p \<Longrightarrow>
   p \<noteq> [] \<and> IsEndNode ctx (hd p) endN"
proof (induction ctx endN maxSteps a rule: doFindPath_loop.induct)
  case (1 ctx endN maxSteps a)
  note loop = doFindPath_loop.simps[of ctx endN maxSteps a]
  show ?case
  proof (cases "IsEmpty (openList a)")
    case True
    then show ?thesis
      using "1.prems" by (simp add: loop)
  next
    case False
    then obtain c where c: "GetMinFNode (openList a) = Inr c"
      using GetMinFNode_nonempty by blast
    show ?thesis
    proof (cases "iteration ctx endN maxSteps a (Inr c)")
      case (Return r a')
      then show ?thesis
        using False c "1.prems" iteration_Return[OF Return]
        by (auto simp: loop getNodePath_def)
    next
      case (Continue a')
      then show ?thesis
        using False c "1.prems" "1.IH"[of a']
        by (simp add: loop)
    qed
  qed
qed

text \<open>
  What \<^verbatim>\<open>getNodePath\<close> returns after the first element, as a function of the
  predecessor of the given node.
\<close>

definition tailPath :: "Node \<Rightarrow> Node list" where
  "tailPath c = (case parent c of None \<Rightarrow> [] | Some _ \<Rightarrow> getNodePath c)"

lemma getNodePath_Some: "parent n = Some c \<Longrightarrow> getNodePath n = n # tailPath c"
  by (cases n) (simp add: getNodePath_def tailPath_def split: option.splits)

lemma getNodePath_None: "parent n = None \<Longrightarrow> getNodePath n = [n]"
  by (cases n) (simp add: getNodePath_def)

lemma GetNeighborNodes_props:
  "nb \<in> set (GetNeighborNodes a ctx c) \<Longrightarrow>
   isAccessible a ctx nb \<and> parent nb = Some c \<and> g nb = 0
   \<and> \<bar>X nb - X c\<bar> + \<bar>Y nb - Y c\<bar> = 1"
  by (auto simp: GetNeighborNodes_def Let_def split: if_splits)

lemma isAccessible_not_closed: "isAccessible a ctx n \<Longrightarrow> \<not> Contains (closedList a) n"
  by (auto simp: isAccessible_def split: if_splits)

lemma Contains_samePos: "samePos n m \<Longrightarrow> Contains l n = Contains l m"
  by (auto simp: Contains_def samePos_def list_ex_iff)

lemma Contains_Add: "Contains (Add l [c]) n = (Contains l n \<or> samePos c n)"
  by (auto simp: Contains_def Add_def list_ex_iff)

lemma beginSearch_fields:
  "openList (beginSearch a startN endN) = openList a @ [startN]"
  "closedList (beginSearch a startN endN) = closedList a"
  "config (beginSearch a startN endN) = config a"
  "endNode (beginSearch a startN endN) = endN"
  "steps (beginSearch a startN endN) = 0"
  by (simp_all add: beginSearch_def Let_def Add_def)

lemma fst_doFindPath:
  "fst (doFindPath a ctx startN endN maxSteps)
     = fst (doFindPath_loop ctx endN maxSteps (beginSearch a startN endN))"
  by (simp add: doFindPath_def split: prod.splits)

lemma samePos_refl: "samePos n n"
  by (simp add: samePos_def)

subsection \<open>The path finder between queries\<close>

text \<open>
  \<^verbatim>\<open>New\<close> returns a path finder with an empty open list and the invalid nodes in the
  closed list. Every query leaves both lists empty and the configuration as it was, and
  its result depends on the configuration and the two lists only.
\<close>

lemma New_lists: "New cfg = Inr a \<Longrightarrow> openList a = [] \<and> closedList a = InvalidNodes cfg \<and> config a = cfg"
  by (auto simp: New_def init_def newPathFinder_def Add_def split: if_splits)

lemma doFindPath_lists:
  "openList (snd (doFindPath a ctx startN endN maxSteps)) = []
   \<and> closedList (snd (doFindPath a ctx startN endN maxSteps)) = []"
  by (simp add: doFindPath_def Clear_def split: prod.splits)

lemma iteration_config:
  "iteration ctx endN maxSteps a r = Continue a' \<Longrightarrow> config a' = config a"
  "iteration ctx endN maxSteps a r = Return res a' \<Longrightarrow> config a' = config a"
  by (auto simp: iteration_def Let_def split: sum.splits if_splits)

lemma doFindPath_loop_config: "config (snd (doFindPath_loop ctx endN maxSteps a)) = config a"
proof (induction ctx endN maxSteps a rule: doFindPath_loop.induct)
  case (1 ctx endN maxSteps a)
  note loop = doFindPath_loop.simps[of ctx endN maxSteps a]
  show ?case
  proof (cases "IsEmpty (openList a)")
    case True
    then show ?thesis by (simp add: loop)
  next
    case False
    show ?thesis
    proof (cases "iteration ctx endN maxSteps a (GetMinFNode (openList a))")
      case (Return r a')
      then show ?thesis using False iteration_config(2)[OF Return] by (simp add: loop)
    next
      case (Continue a')
      then show ?thesis
        using False iteration_config(1)[OF Continue] "1.IH"[OF False Continue] by (simp add: loop)
    qed
  qed
qed

lemma doFindPath_config: "config (snd (doFindPath a ctx startN endN maxSteps)) = config a"
proof -
  obtain r a3 where l: "doFindPath_loop ctx endN maxSteps (beginSearch a startN endN) = (r, a3)"
    by (cases "doFindPath_loop ctx endN maxSteps (beginSearch a startN endN)")
  then have "config a3 = config a"
    using doFindPath_loop_config[of ctx endN maxSteps "beginSearch a startN endN"]
    by (simp add: beginSearch_fields)
  then show ?thesis
    using l by (simp add: doFindPath_def)
qed

lemma beginSearch_cong:
  "config a = config b \<Longrightarrow> openList a = openList b \<Longrightarrow> closedList a = closedList b \<Longrightarrow>
   beginSearch a startN endN = beginSearch b startN endN"
  by (simp add: beginSearch_def Let_def)

lemma doFindPath_cong:
  "config a = config b \<Longrightarrow> openList a = openList b \<Longrightarrow> closedList a = closedList b \<Longrightarrow>
   doFindPath a ctx startN endN maxSteps = doFindPath b ctx startN endN maxSteps"
  by (simp add: doFindPath_def beginSearch_cong[of a b])

lemma doFindPath_twice_empty_closed:
  assumes "openList a = []" and "closedList a = []"
  shows "doFindPath (snd (doFindPath a ctx startN endN maxSteps)) ctx startN endN maxSteps
         = doFindPath a ctx startN endN maxSteps"
  using assms by (intro doFindPath_cong) (simp_all add: doFindPath_config doFindPath_lists)

section \<open>Sample configurations\<close>

text \<open>
  \<open>cell x y\<close> is the node \<^verbatim>\<open>Node{X: x, Y: y}\<close> a caller builds; \<open>grid3\<close> is a grid of
  three by three cells without weighted nodes.
\<close>

definition cell :: "int \<Rightarrow> int \<Rightarrow> Node" where
  "cell x y = Node 0 0 0 x y 0 None"

definition grid3 :: "Node list \<Rightarrow> Config" where
  "grid3 invalid = \<lparr>GridWidth = 3, GridHeight = 3, InvalidNodes = invalid, WeightedNodes = []\<rparr>"

definition pos :: "Node \<Rightarrow> int \<times> int" where
  "pos n = (X n, Y n)"

definition positions :: "(error + Node list) \<times> PathFinder \<Rightarrow> error + (int \<times> int) list" where
  "positions r = map_sum id (map pos) (fst r)"

text \<open>
  The ancestor chain of a node: the node, its predecessor, the predecessor of that one,
  down to the node that has no predecessor.
\<close>

fun chain :: "Node \<Rightarrow> Node list" where
  "chain (Node fv gv hv x y w None) = [Node fv gv hv x y w None]"
| "chain (Node fv gv hv x y w (Some p)) = Node fv gv hv x y w (Some p) # chain p"

section \<open>Accessibility\<close>

text \<open>
  C7: \<^verbatim>\<open>isAccessible\<close> is false for a node outside \<open>[0, width - 1] \<times> [0, height - 1]\<close>, false
  when a context is present and reports the cell blocked, false when a node with the same
  coordinates is in the closed list, and true otherwise. A nil context blocks nothing.
\<close>

theorem isAccessible_cases:
  "isAccessible a ctx node =
     (0 \<le> X node \<and> X node \<le> GridWidth (config a) - 1
      \<and> 0 \<le> Y node \<and> Y node \<le> GridHeight (config a) - 1
      \<and> (\<forall>c. ctx = Some c \<longrightarrow> \<not> IsInBlock c (X node) (Y node))
      \<and> (\<forall>m \<in> set (closedList a). (X m, Y m) \<noteq> (X node, Y node)))"
  by (cases ctx) (auto simp: isAccessible_def Contains_def list_ex_iff samePos_def)

definition wall :: IContext where
  "wall = \<lparr>IsInBlock = (\<lambda>x y. x = 2 \<and> y = 2), IsNearEnough = (\<lambda>x y. False)\<rparr>"

theorem isAccessible_cases_witness:
  "isAccessible (init (newPathFinder (grid3 [cell 1 0]))) (Some wall) (cell 1 1)
   \<and> \<not> isAccessible (init (newPathFinder (grid3 [cell 1 0]))) (Some wall) (cell 1 0)
   \<and> \<not> isAccessible (init (newPathFinder (grid3 [cell 1 0]))) (Some wall) (cell 2 2)
   \<and> isAccessible (init (newPathFinder (grid3 [cell 1 0]))) None (cell 2 2)
   \<and> \<not> isAccessible (init (newPathFinder (grid3 [cell 1 0]))) None (cell 3 1)"
  using isAccessible_cases[of "init (newPathFinder (grid3 [cell 1 0]))" "Some wall" "cell 1 1"]
    isAccessible_cases[of "init (newPathFinder (grid3 [cell 1 0]))" "Some wall" "cell 1 0"]
    isAccessible_cases[of "init (newPathFinder (grid3 [cell 1 0]))" "Some wall" "cell 2 2"]
    isAccessible_cases[of "init (newPathFinder (grid3 [cell 1 0]))" None "cell 2 2"]
    isAccessible_cases[of "init (newPathFinder (grid3 [cell 1 0]))" None "cell 3 1"]
  by (simp add: init_def newPathFinder_def grid3_def cell_def wall_def Add_def)

section \<open>Path reconstruction\<close>

lemma chain_nonempty: "chain c \<noteq> []"
  by (cases c rule: chain.cases) simp_all

lemma hd_chain: "hd (chain c) = c"
  by (cases c rule: chain.cases) simp_all

lemma parentPath_chain:
  "parentPath c = (if parent c = None then [] else butlast (tl (chain c)))"
proof (induction c rule: parentPath.induct)
  case 1
  then show ?case by simp
next
  case (2 fv gv hv x y w p)
  show ?case
  proof (cases "parent p")
    case None
    then show ?thesis by (cases p) simp
  next
    case (Some q)
    then have "parentPath p = butlast (tl (chain p))"
      using 2 by simp
    moreover obtain t where "chain p = p # t" "t \<noteq> []"
      using Some by (cases p) (simp add: chain_nonempty)
    ultimately show ?thesis using Some by simp
  qed
qed

lemma parent_last_chain: "parent (last (chain c)) = None"
  by (induction c rule: chain.induct) (simp_all add: chain_nonempty)

lemma chain_step: "Suc i < length (chain c) \<Longrightarrow> parent (chain c ! i) = Some (chain c ! Suc i)"
proof (induction c arbitrary: i rule: chain.induct)
  case 1
  then show ?case by simp
next
  case (2 fv gv hv x y w p)
  then show ?case
    by (cases i) (simp_all add: hd_chain hd_conv_nth[OF chain_nonempty, symmetric])
qed

text \<open>
  C6, as the code has it: \<^verbatim>\<open>getNodePath\<close> returns the ancestor chain of the terminal node
  without its last element, the node that has no predecessor: the terminal node is at
  index 0, every following element is the predecessor of the one before it, and no
  element lacks a predecessor. When the terminal node itself has no predecessor, the
  result is that node alone.
\<close>

theorem getNodePath_chain:
  "getNodePath c = (if parent c = None then [c] else butlast (chain c))
   \<and> getNodePath c ! 0 = c
   \<and> (\<forall>i. Suc i < length (getNodePath c) \<longrightarrow>
          parent (getNodePath c ! i) = Some (getNodePath c ! Suc i))
   \<and> (parent c \<noteq> None \<longrightarrow> (\<forall>n \<in> set (getNodePath c). parent n \<noteq> None))
   \<and> parent (last (chain c)) = None"
proof -
  have eq: "getNodePath c = (if parent c = None then [c] else butlast (chain c))"
  proof (cases "parent c")
    case None
    then show ?thesis by (simp add: getNodePath_def parentPath_chain)
  next
    case (Some p)
    then obtain t where t: "chain c = c # t" "t \<noteq> []"
      by (cases c) (simp add: chain_nonempty)
    then show ?thesis using Some by (simp add: getNodePath_def parentPath_chain)
  qed
  have first: "getNodePath c ! 0 = c"
    by (simp add: getNodePath_def)
  have link: "parent (getNodePath c ! i) = Some (getNodePath c ! Suc i)"
    if "Suc i < length (getNodePath c)" for i
  proof (cases "parent c")
    case None
    then show ?thesis using that by (simp add: eq)
  next
    case (Some p)
    then have len: "Suc i < length (chain c) - 1"
      using that by (simp add: eq)
    then have "parent (chain c ! i) = Some (chain c ! Suc i)"
      by (intro chain_step) simp
    then show ?thesis
      using Some len by (simp add: eq nth_butlast)
  qed
  have inner: "parent n \<noteq> None" if "parent c \<noteq> None" "n \<in> set (getNodePath c)" for n
  proof -
    from that obtain i where i: "i < length (butlast (chain c))" "n = butlast (chain c) ! i"
      by (auto simp: eq in_set_conv_nth)
    then have "parent (chain c ! i) = Some (chain c ! Suc i)"
      by (intro chain_step) simp
    then show ?thesis using i by (simp add: nth_butlast)
  qed
  show ?thesis
    using eq first link inner parent_last_chain by blast
qed

definition twoSteps :: Node where
  "twoSteps = Node 3 1 2 0 2 0 (Some (Node 4 1 3 0 1 0 (Some (cell 0 0))))"

theorem getNodePath_chain_witness:
  "parent twoSteps \<noteq> None
   \<and> getNodePath twoSteps = [twoSteps, Node 4 1 3 0 1 0 (Some (cell 0 0))]
   \<and> getNodePath twoSteps = butlast (chain twoSteps)
   \<and> Suc 0 < length (getNodePath twoSteps)
   \<and> parent (getNodePath twoSteps ! 0) = Some (getNodePath twoSteps ! Suc 0)
   \<and> list_all (\<lambda>n. parent n \<noteq> None) (getNodePath twoSteps)"
proof -
  have p: "parent twoSteps \<noteq> None"
    by (simp add: twoSteps_def)
  have c: "butlast (chain twoSteps) = [twoSteps, Node 4 1 3 0 1 0 (Some (cell 0 0))]"
    by (simp add: twoSteps_def cell_def)
  note t = getNodePath_chain[of twoSteps]
  have e: "getNodePath twoSteps = butlast (chain twoSteps)"
    using t p by simp
  have "Suc 0 < length (getNodePath twoSteps) \<longrightarrow>
        parent (getNodePath twoSteps ! 0) = Some (getNodePath twoSteps ! Suc 0)"
    using t by blast
  moreover have "\<forall>n \<in> set (getNodePath twoSteps). parent n \<noteq> None"
    using t p by blast
  ultimately show ?thesis
    using p e c by (simp add: list_all_iff)
qed

text \<open>
  C6, as the spec has it, fails for a terminal node without predecessor: the start node of
  a query is returned when it is itself the terminal node.
\<close>

theorem getNodePath_start_counterexample:
  "parent (cell 0 0) = None \<and> getNodePath (cell 0 0) = [cell 0 0]"
  by (simp add: cell_def getNodePath_def)

section \<open>The step budget\<close>

lemma iteration_no_budget:
  "maxSteps \<le> 0 \<Longrightarrow> iteration ctx endN maxSteps a r = iteration ctx endN StepsNoLimit a r"
  by (simp add: iteration_def StepsNoLimit_def Let_def split: sum.splits)

lemma doFindPath_loop_no_budget:
  "maxSteps \<le> 0 \<Longrightarrow>
   doFindPath_loop ctx endN maxSteps a = doFindPath_loop ctx endN StepsNoLimit a"
proof (induction ctx endN maxSteps a rule: doFindPath_loop.induct)
  case (1 ctx endN maxSteps a)
  show ?case
  proof (cases "IsEmpty (openList a)")
    case True
    then show ?thesis
      by (simp add: doFindPath_loop.simps[of ctx endN maxSteps a]
          doFindPath_loop.simps[of ctx endN StepsNoLimit a])
  next
    case False
    show ?thesis
    proof (cases "iteration ctx endN maxSteps a (GetMinFNode (openList a))")
      case (Return r a')
      then show ?thesis
        using False iteration_no_budget[OF "1.prems", of ctx endN a]
        by (simp add: doFindPath_loop.simps[of ctx endN maxSteps a]
            doFindPath_loop.simps[of ctx endN StepsNoLimit a])
    next
      case (Continue a')
      then have "doFindPath_loop ctx endN maxSteps a' = doFindPath_loop ctx endN StepsNoLimit a'"
        using False "1.prems" by (intro "1.IH") 
      then show ?thesis
        using False Continue iteration_no_budget[OF "1.prems", of ctx endN a]
        by (simp add: doFindPath_loop.simps[of ctx endN maxSteps a]
            doFindPath_loop.simps[of ctx endN StepsNoLimit a])
    qed
  qed
qed

text \<open>
  C9: with a step budget of zero or less, not only with \<open>StepsNoLimit\<close>, \<^verbatim>\<open>FindPathEx\<close>
  is \<^verbatim>\<open>FindPath\<close>: same result and same final state of the path finder. The budget
  never cuts the search: the result is the no-path error or a path whose first element
  passes the goal test.
\<close>

theorem FindPathEx_nonpositive_budget:
  assumes "maxSteps \<le> 0"
  shows "FindPathEx a ctx startN endN maxSteps = FindPath a ctx startN endN
       \<and> (case fst (FindPathEx a ctx startN endN maxSteps) of
             Inl err \<Rightarrow> err = ErrorNoPath
           | Inr path \<Rightarrow> path \<noteq> [] \<and> IsEndNode ctx (hd path) endN)"
proof -
  have "FindPathEx a ctx startN endN maxSteps = FindPath a ctx startN endN"
    using assms
    by (simp add: FindPathEx_def FindPath_def doFindPath_def doFindPath_loop_no_budget)
  moreover have "fst (FindPathEx a ctx startN endN maxSteps)
                 = fst (doFindPath_loop ctx endN maxSteps (beginSearch a startN endN))"
    by (simp add: FindPathEx_def fst_doFindPath)
  ultimately show ?thesis
    using doFindPath_loop_error[of ctx endN maxSteps "beginSearch a startN endN"]
      doFindPath_loop_goal[OF assms, of ctx endN "beginSearch a startN endN"]
    by (simp split: sum.splits)
qed

theorem FindPathEx_nonpositive_budget_witness:
  "(- 7 :: int) \<le> 0
   \<and> FindPathEx (init (newPathFinder (grid3 []))) None (cell 0 0) (cell 2 2) (- 7)
       = FindPath (init (newPathFinder (grid3 []))) None (cell 0 0) (cell 2 2)
   \<and> positions (FindPathEx (init (newPathFinder (grid3 []))) None (cell 0 0) (cell 2 2) (- 7))
       = Inr [(2, 2), (1, 2), (0, 2), (0, 1)]"
proof -
  have "positions (FindPath (init (newPathFinder (grid3 []))) None (cell 0 0) (cell 2 2))
       = Inr [(2, 2), (1, 2), (0, 2), (0, 1)]"
    by code_simp
  then show ?thesis
    using FindPathEx_nonpositive_budget[of "- 7" "init (newPathFinder (grid3 []))" None "cell 0 0" "cell 2 2"]
    by simp
qed

section \<open>Scoring\<close>

text \<open>
  Whatever node is expanded, \<open>g\<close> of a scored neighbour is 1 plus the matching
  weightings.
\<close>

lemma calculateNode_neighbor_g:
  "nb \<in> set (GetNeighborNodes a ctx c) \<Longrightarrow>
   g (calculateNode a' nb) = addWeighting nb (WeightedNodes (config a')) 1"
  using GetNeighborNodes_props[of nb a ctx c] by (simp add: calculateNode_def Let_def)

text \<open>
  C1: \<open>g\<close> of a scored neighbour should be \<open>g\<close> of its predecessor plus one. The code
  creates every neighbour with \<open>g = 0\<close> and increments that: on the empty grid of three
  by three cells, from \<open>(0, 0)\<close> to \<open>(2, 2)\<close>, every node of the path has \<open>g = 1\<close>, also
  the three whose predecessor has \<open>g = 1\<close>.
\<close>

theorem g_is_not_accumulated:
  "New (grid3 []) = Inr (init (newPathFinder (grid3 [])))
   \<and> map_sum id (map (\<lambda>n. (X n, Y n, g n, map_option g (parent n))))
        (fst (FindPath (init (newPathFinder (grid3 []))) None (cell 0 0) (cell 2 2)))
     = Inr [(2, 2, 1, Some 1), (1, 2, 1, Some 1), (0, 2, 1, Some 1), (0, 1, 1, Some 0)]"
  by code_simp

section \<open>Reusing a path finder\<close>

text \<open>
  C2: a second identical query should return what the first returned, the invalid nodes
  being still closed. The deferred clearing of \<^verbatim>\<open>doFindPath\<close> empties the closed list, the
  invalid nodes included: with \<open>(1, 0)\<close> invalid, the first query from \<open>(0, 0)\<close> to
  \<open>(2, 0)\<close> goes around it and the second goes through it.
\<close>

theorem second_query_forgets_invalid_nodes:
  "New (grid3 [cell 1 0]) = Inr (init (newPathFinder (grid3 [cell 1 0])))
   \<and> closedList (init (newPathFinder (grid3 [cell 1 0]))) = [cell 1 0]
   \<and> positions (FindPath (init (newPathFinder (grid3 [cell 1 0]))) None (cell 0 0) (cell 2 0))
       = Inr [(2, 0), (2, 1), (1, 1), (0, 1)]
   \<and> closedList (snd (FindPath (init (newPathFinder (grid3 [cell 1 0]))) None (cell 0 0) (cell 2 0)))
       = []
   \<and> positions (FindPath
         (snd (FindPath (init (newPathFinder (grid3 [cell 1 0]))) None (cell 0 0) (cell 2 0)))
         None (cell 0 0) (cell 2 0))
       = Inr [(2, 0), (1, 0)]"
  by code_simp

text \<open>
  The no-path error is returned with an empty open list only, and a start node that is
  not the goal and has its four neighbours in the closed list gets it. That is the case
  of the invalid nodes in the first query of a path finder.
\<close>

lemma doFindPath_loop_NoPath:
  "fst (doFindPath_loop ctx endN maxSteps a) = Inl err \<Longrightarrow>
   IsEmpty (openList (snd (doFindPath_loop ctx endN maxSteps a)))"
proof (induction ctx endN maxSteps a rule: doFindPath_loop.induct)
  case (1 ctx endN maxSteps a)
  note loop = doFindPath_loop.simps[of ctx endN maxSteps a]
  show ?case
  proof (cases "IsEmpty (openList a)")
    case True
    then show ?thesis by (simp add: loop)
  next
    case False
    then obtain c where c: "GetMinFNode (openList a) = Inr c"
      using GetMinFNode_nonempty by blast
    show ?thesis
    proof (cases "iteration ctx endN maxSteps a (Inr c)")
      case (Return r a')
      then show ?thesis
        using False c "1.prems" iteration_Return[OF Return] by (simp add: loop)
    next
      case (Continue a')
      then show ?thesis
        using False c "1.prems" "1.IH"[of a'] by (simp add: loop)
    qed
  qed
qed

lemma enclosed_start_first_query:
  assumes "openList a = []" and "\<not> IsEndNode ctx startN endN"
    and "Contains (closedList a) (Node 0 0 0 (X startN) (Y startN + 1) 0 (Some startN))"
    and "Contains (closedList a) (Node 0 0 0 (X startN) (Y startN - 1) 0 (Some startN))"
    and "Contains (closedList a) (Node 0 0 0 (X startN - 1) (Y startN) 0 (Some startN))"
    and "Contains (closedList a) (Node 0 0 0 (X startN + 1) (Y startN) 0 (Some startN))"
  shows "fst (FindPath a ctx startN endN) = Inl ErrorNoPath"
proof -
  let ?b = "beginSearch a startN endN"
  let ?a3 = "?b\<lparr>openList := Remove (openList ?b) startN,
                  closedList := Add (closedList ?b) [startN], steps := steps ?b + 1\<rparr>"
  have opn: "openList ?b = [startN]"
    using assms(1) by (simp add: beginSearch_fields)
  then have ne: "\<not> IsEmpty (openList ?b)" and c: "GetMinFNode (openList ?b) = Inr startN"
    by (simp_all add: IsEmpty_def)
  have "GetNeighborNodes ?a3 ctx startN = []"
    using assms(3-6)
    by (simp add: GetNeighborNodes_def Let_def isAccessible_def beginSearch_fields Contains_Add)
  then have it: "iteration ctx endN StepsNoLimit ?b (Inr startN) = Continue ?a3"
    using assms(2) by (simp add: iteration_def Let_def StepsNoLimit_def)
  have "IsEmpty (openList ?a3)"
    using opn by (simp add: IsEmpty_def samePos_refl)
  then have "doFindPath_loop ctx endN StepsNoLimit ?a3 = (Inl ErrorNoPath, ?a3)"
    by (simp add: doFindPath_loop.simps[of ctx endN StepsNoLimit ?a3])
  then show ?thesis
    using ne c it
    by (simp add: FindPath_def fst_doFindPath doFindPath_loop.simps[of ctx endN StepsNoLimit ?b])
qed

text \<open>
  C5: a start node with invalid nodes on its four sides should give the no-path error on
  every query. The first query on a new path finder does; the second finds the closed
  list empty and returns a path through an invalid node.
\<close>

theorem enclosed_start_second_query:
  "New (grid3 [cell 1 0, cell 0 1, cell 2 1, cell 1 2])
     = Inr (init (newPathFinder (grid3 [cell 1 0, cell 0 1, cell 2 1, cell 1 2])))
   \<and> fst (FindPath (init (newPathFinder (grid3 [cell 1 0, cell 0 1, cell 2 1, cell 1 2])))
            None (cell 1 1) (cell 0 0))
       = Inl ErrorNoPath
   \<and> positions (FindPath
         (snd (FindPath (init (newPathFinder (grid3 [cell 1 0, cell 0 1, cell 2 1, cell 1 2])))
                 None (cell 1 1) (cell 0 0)))
         None (cell 1 1) (cell 0 0))
       = Inr [(0, 0), (1, 0)]"
  by code_simp

section \<open>Errors of a query\<close>

text \<open>
  C8: the loop calls \<^verbatim>\<open>GetMinFNode\<close> only on an open list that is not empty, where it
  returns a node. No query and no run of the loop returns the wrapped error of the minimum
  extraction; the only error of a query is the no-path error. The branch for that error
  is in the loop all the same: an error handed to the body of the loop is wrapped and
  returned as the result of the query.
\<close>

theorem minimum_extraction_never_fails:
  "fst (doFindPath a ctx startN endN maxSteps) \<noteq> Inl (ErrorCannotGetMinF e)
   \<and> fst (doFindPath_loop ctx endN maxSteps a) \<noteq> Inl (ErrorCannotGetMinF e)
   \<and> (IsEmpty (openList a) \<or> (\<exists>c. GetMinFNode (openList a) = Inr c))
   \<and> iteration ctx endN maxSteps a (Inl e) = Return (Inl (ErrorCannotGetMinF e)) a"
proof -
  have "fst (doFindPath_loop ctx endN maxSteps b) \<noteq> Inl (ErrorCannotGetMinF e)" for b
    using doFindPath_loop_error[of ctx endN maxSteps b] by auto
  moreover have "fst (doFindPath a ctx startN endN maxSteps)
                 = fst (doFindPath_loop ctx endN maxSteps (beginSearch a startN endN))"
    by (simp add: doFindPath_def split: prod.splits)
  ultimately show ?thesis
    using GetMinFNode_nonempty[of "openList a"] by (auto simp: iteration_def)
qed

section \<open>The start node in the output\<close>

text \<open>
  A node of the open list is away from the start node when it has a predecessor and no
  node of the path that would be returned for it has the coordinates of the start node.
\<close>

definition awayFrom :: "Node \<Rightarrow> Node \<Rightarrow> bool" where
  "awayFrom startN n = (parent n \<noteq> None \<and> (\<forall>m \<in> set (getNodePath n). \<not> samePos m startN))"

lemma expand_awayFrom:
  assumes closed: "Contains (closedList a3) startN"
    and opn: "\<forall>n \<in> set (openList a3). awayFrom startN n"
    and tl: "\<forall>m \<in> set (tailPath c). \<not> samePos m startN"
    and n: "n \<in> set (openList (foldl visitNeighbor a3 (GetNeighborNodes a3 ctx c)))"
  shows "awayFrom startN n"
proof -
  from foldl_visitNeighbor_open[OF n]
  consider "n \<in> set (openList a3)"
    | nb where "nb \<in> set (GetNeighborNodes a3 ctx c)" "n = calculateNode a3 nb"
    by blast
  then show ?thesis
  proof cases
    case 1
    then show ?thesis using opn by blast
  next
    case 2
    note nb = GetNeighborNodes_props[OF 2(1)]
    have par: "parent n = Some c"
      using nb 2(2) by simp
    have "\<not> Contains (closedList a3) nb"
      using nb isAccessible_not_closed by blast
    then have "\<not> samePos nb startN"
      using closed Contains_samePos by blast
    then have "\<not> samePos n startN"
      using 2(2) by (simp add: samePos_def)
    then show ?thesis
      using par tl by (simp add: awayFrom_def getNodePath_Some)
  qed
qed

lemma awayFrom_tailPath: "awayFrom startN c \<Longrightarrow> \<forall>m \<in> set (tailPath c). \<not> samePos m startN"
  by (auto simp: awayFrom_def tailPath_def)

lemma doFindPath_loop_awayFrom:
  "Contains (closedList a) startN \<Longrightarrow> \<forall>n \<in> set (openList a). awayFrom startN n \<Longrightarrow>
   fst (doFindPath_loop ctx endN maxSteps a) = Inr p \<Longrightarrow> m \<in> set p \<Longrightarrow> \<not> samePos m startN"
proof (induction ctx endN maxSteps a rule: doFindPath_loop.induct)
  case (1 ctx endN maxSteps a)
  note loop = doFindPath_loop.simps[of ctx endN maxSteps a]
  show ?case
  proof (cases "IsEmpty (openList a)")
    case True
    then show ?thesis using "1.prems" by (simp add: loop)
  next
    case False
    then obtain c where c: "GetMinFNode (openList a) = Inr c"
      using GetMinFNode_nonempty by blast
    then have cQ: "awayFrom startN c"
      using "1.prems"(2) GetMinFNode_mem by blast
    show ?thesis
    proof (cases "iteration ctx endN maxSteps a (Inr c)")
      case (Return r a')
      then have "p = getNodePath c"
        using False c "1.prems"(3) iteration_Return[OF Return] by (simp add: loop)
      then show ?thesis using cQ "1.prems"(4) by (simp add: awayFrom_def)
    next
      case (Continue a')
      let ?a3 = "a\<lparr>openList := Remove (openList a) c, closedList := Add (closedList a) [c],
                    steps := steps a + 1\<rparr>"
      have a': "a' = foldl visitNeighbor ?a3 (GetNeighborNodes ?a3 ctx c)"
        using iteration_Continue[OF Continue] by simp
      have cl: "Contains (closedList ?a3) startN"
        using "1.prems"(1) by (simp add: Contains_Add)
      have op: "\<forall>n \<in> set (openList ?a3). awayFrom startN n"
        using "1.prems"(2) set_Remove_subset[of "openList a" c] by auto
      have "\<forall>n \<in> set (openList a'). awayFrom startN n"
        unfolding a' using expand_awayFrom[OF cl op awayFrom_tailPath[OF cQ]] by blast
      moreover have "Contains (closedList a') startN"
        unfolding a' using cl by simp
      moreover have "fst (doFindPath_loop ctx endN maxSteps a') = Inr p"
        using False c Continue "1.prems"(3) by (simp add: loop)
      ultimately show ?thesis
        using "1.IH"[OF False _ ] c Continue "1.prems"(4) by simp
    qed
  qed
qed

lemma FindPath_start_is_goal:
  assumes "openList a = []" and "parent startN = None" and "IsEndNode ctx startN endN"
  shows "fst (FindPath a ctx startN endN) = Inr [startN]"
proof -
  let ?b = "beginSearch a startN endN"
  have "openList ?b = [startN]"
    using assms(1) by (simp add: beginSearch_fields)
  then have "\<not> IsEmpty (openList ?b)" "GetMinFNode (openList ?b) = Inr startN"
    by (simp_all add: IsEmpty_def)
  then show ?thesis
    using assms(2,3)
    by (simp add: FindPath_def fst_doFindPath doFindPath_loop.simps[of ctx endN StepsNoLimit ?b]
        iteration_def Let_def getNodePath_None)
qed

lemma IsEndNode_iff:
  "IsEndNode ctx n endN
   = (samePos n endN \<or> (\<exists>c. ctx = Some c \<and> IsNearEnough c (X n) (Y n)))"
  by (cases ctx) (auto simp: IsEndNode_def samePos_def)

text \<open>
  C10, as the code has it: on a path finder whose open list is empty, as it is between
  queries, and for a start node without predecessor: when the start node has the
  coordinates of the end node or a context is present and reports it near enough,
  \<^verbatim>\<open>FindPath\<close> succeeds with the one-element sequence of the start node; otherwise no
  node of a returned path has the coordinates of the start node.
\<close>

theorem start_in_output_only_when_goal:
  assumes "openList a = []" and "parent startN = None"
  shows "((samePos startN endN \<or> (\<exists>c. ctx = Some c \<and> IsNearEnough c (X startN) (Y startN)))
            \<longrightarrow> fst (FindPath a ctx startN endN) = Inr [startN])
       \<and> (\<not> (samePos startN endN \<or> (\<exists>c. ctx = Some c \<and> IsNearEnough c (X startN) (Y startN)))
            \<longrightarrow> (\<forall>p. fst (FindPath a ctx startN endN) = Inr p \<longrightarrow>
                     (\<forall>n \<in> set p. \<not> samePos n startN)))"
proof -
  let ?b = "beginSearch a startN endN"
  note loop = doFindPath_loop.simps[of ctx endN StepsNoLimit ?b]
  have opn: "openList ?b = [startN]"
    using assms(1) by (simp add: beginSearch_fields)
  then have ne: "\<not> IsEmpty (openList ?b)" and c: "GetMinFNode (openList ?b) = Inr startN"
    by (simp_all add: IsEmpty_def)
  have goal: "fst (FindPath a ctx startN endN) = Inr [startN]" if "IsEndNode ctx startN endN"
    using assms that by (rule FindPath_start_is_goal)
  have other: "\<not> samePos n startN"
    if ng: "\<not> IsEndNode ctx startN endN" and p: "fst (FindPath a ctx startN endN) = Inr p"
      and n: "n \<in> set p" for p n
  proof -
    let ?a3 = "?b\<lparr>openList := Remove (openList ?b) startN,
                    closedList := Add (closedList ?b) [startN], steps := steps ?b + 1\<rparr>"
    let ?a' = "foldl visitNeighbor ?a3 (GetNeighborNodes ?a3 ctx startN)"
    have it: "iteration ctx endN StepsNoLimit ?b (Inr startN) = Continue ?a'"
      using ng by (simp add: iteration_def Let_def StepsNoLimit_def)
    have cl: "Contains (closedList ?a3) startN"
      by (simp add: Contains_Add samePos_refl)
    have op: "\<forall>n \<in> set (openList ?a3). awayFrom startN n"
      using opn by (simp add: samePos_refl)
    have tl: "\<forall>m \<in> set (tailPath startN). \<not> samePos m startN"
      using assms(2) by (simp add: tailPath_def)
    have "\<forall>n \<in> set (openList ?a'). awayFrom startN n"
      using expand_awayFrom[OF cl op tl] by blast
    moreover have "Contains (closedList ?a') startN"
      using cl by simp
    moreover have "fst (doFindPath_loop ctx endN StepsNoLimit ?a') = Inr p"
      using p ne c it by (simp add: FindPath_def fst_doFindPath loop)
    ultimately show ?thesis
      using doFindPath_loop_awayFrom n by blast
  qed
  show ?thesis
    using goal other unfolding IsEndNode_iff[symmetric] by blast
qed

definition nearCentre :: IContext where
  "nearCentre = \<lparr>IsInBlock = (\<lambda>x y. False), IsNearEnough = (\<lambda>x y. x = 1 \<and> y = 1)\<rparr>"

theorem start_in_output_only_when_goal_witness:
  "openList (init (newPathFinder (grid3 []))) = []
   \<and> parent (cell 1 1) = None \<and> parent (cell 0 0) = None
   \<and> samePos (cell 1 1) (cell 1 1)
   \<and> fst (FindPath (init (newPathFinder (grid3 []))) None (cell 1 1) (cell 1 1)) = Inr [cell 1 1]
   \<and> \<not> samePos (cell 1 1) (cell 2 2)
   \<and> IsNearEnough nearCentre (X (cell 1 1)) (Y (cell 1 1))
   \<and> IsEndNode (Some nearCentre) (cell 1 1) (cell 2 2)
   \<and> \<not> IsEndNode None (cell 1 1) (cell 2 2)
   \<and> fst (FindPath (init (newPathFinder (grid3 []))) (Some nearCentre) (cell 1 1) (cell 2 2))
       = Inr [cell 1 1]
   \<and> \<not> samePos (cell 0 0) (cell 2 2)
   \<and> \<not> IsNearEnough nearCentre (X (cell 0 0)) (Y (cell 0 0))
   \<and> positions (FindPath (init (newPathFinder (grid3 []))) (Some nearCentre) (cell 0 0) (cell 2 2))
       = Inr [(2, 2), (1, 2), (0, 2), (0, 1)]
   \<and> (case fst (FindPath (init (newPathFinder (grid3 []))) (Some nearCentre) (cell 0 0) (cell 2 2)) of
         Inl e \<Rightarrow> False
       | Inr p \<Rightarrow> list_all (\<lambda>n. \<not> samePos n (cell 0 0)) p)"
proof -
  let ?E = "init (newPathFinder (grid3 []))"
  have o: "openList ?E = []"
    by (simp add: init_def newPathFinder_def grid3_def Add_def)
  have p: "parent (cell 1 1) = None" "parent (cell 0 0) = None"
    by (simp_all add: cell_def)
  have s: "samePos (cell 1 1) (cell 1 1)" "\<not> samePos (cell 1 1) (cell 2 2)"
    "\<not> samePos (cell 0 0) (cell 2 2)"
    by (simp_all add: samePos_def cell_def)
  have n: "IsNearEnough nearCentre (X (cell 1 1)) (Y (cell 1 1))"
    "\<not> IsNearEnough nearCentre (X (cell 0 0)) (Y (cell 0 0))"
    by (simp_all add: nearCentre_def cell_def)
  have g: "IsEndNode (Some nearCentre) (cell 1 1) (cell 2 2)"
    "\<not> IsEndNode None (cell 1 1) (cell 2 2)"
    by (simp_all add: IsEndNode_def nearCentre_def cell_def)
  have v: "positions (FindPath ?E (Some nearCentre) (cell 0 0) (cell 2 2))
             = Inr [(2, 2), (1, 2), (0, 2), (0, 1)]"
    by code_simp
  then obtain path where path: "fst (FindPath ?E (Some nearCentre) (cell 0 0) (cell 2 2)) = Inr path"
    by (cases "fst (FindPath ?E (Some nearCentre) (cell 0 0) (cell 2 2))")
      (simp_all add: positions_def)
  have "fst (FindPath ?E None (cell 1 1) (cell 1 1)) = Inr [cell 1 1]"
    using start_in_output_only_when_goal[OF o p(1), of "cell 1 1" None] s(1) by blast
  moreover have "fst (FindPath ?E (Some nearCentre) (cell 1 1) (cell 2 2)) = Inr [cell 1 1]"
    using start_in_output_only_when_goal[OF o p(1), of "cell 2 2" "Some nearCentre"] n(1) by blast
  moreover have "\<forall>n \<in> set path. \<not> samePos n (cell 0 0)"
    using start_in_output_only_when_goal[OF o p(2), of "cell 2 2" "Some nearCentre"] s(3) n(2) path
    by blast
  ultimately show ?thesis
    using o p s n g v path by (simp add: list_all_iff)
qed

text \<open>
  C10, as the spec has it, fails for a start node that has a predecessor, such as the
  first node of a path that an earlier query returned: \<^verbatim>\<open>doFindPath\<close> leaves the
  predecessor of the start node in place and \<^verbatim>\<open>getNodePath\<close> follows it. \<open>resumed\<close> is
  the node at \<open>(0, 2)\<close> that the query from \<open>(0, 0)\<close> to \<open>(2, 2)\<close> with a budget of three
  steps returns first. As the start of a query to its own cell it passes the goal test
  and the result has two nodes; as the start of a query to \<open>(2, 2)\<close> it fails the goal
  test and its cell is in the result.
\<close>

definition resumed :: Node where
  "resumed = Node 3 1 2 0 2 0 (Some (Node 4 1 3 0 1 0 (Some (cell 0 0))))"

theorem start_with_predecessor_counterexample:
  "map_sum id hd (fst (FindPathEx (init (newPathFinder (grid3 []))) None (cell 0 0) (cell 2 2) 3))
     = Inr resumed
   \<and> openList (init (newPathFinder (grid3 []))) = []
   \<and> IsEndNode None resumed (cell 0 2)
   \<and> fst (FindPath (init (newPathFinder (grid3 []))) None resumed (cell 0 2))
       = Inr [resumed, Node 4 1 3 0 1 0 (Some (cell 0 0))]
   \<and> \<not> IsEndNode None resumed (cell 2 2)
   \<and> positions (FindPath (init (newPathFinder (grid3 []))) None resumed (cell 2 2))
       = Inr [(2, 2), (1, 2), (0, 2), (0, 1)]
   \<and> pos resumed = (0, 2)"
  by code_simp

section \<open>Stopping at the step budget\<close>

text \<open>
  \<open>advance\<close> is one pass of the loop without step budget; \<open>extractedAt ctx endN a k\<close> is
  the result of \<^verbatim>\<open>GetMinFNode\<close> in the \<open>k\<close>-th pass of the loop entered in state \<open>a\<close>.
\<close>

definition advance :: "IContext option \<Rightarrow> Node \<Rightarrow> PathFinder \<Rightarrow> PathFinder" where
  "advance ctx endN a =
     (case iteration ctx endN StepsNoLimit a (GetMinFNode (openList a)) of
        Return r a' \<Rightarrow> a'
      | Continue a' \<Rightarrow> a')"

definition extractedAt :: "IContext option \<Rightarrow> Node \<Rightarrow> PathFinder \<Rightarrow> nat \<Rightarrow> error + Node" where
  "extractedAt ctx endN a k = GetMinFNode (openList ((advance ctx endN ^^ (k - 1)) a))"

lemma iteration_Continue_budget:
  "iteration ctx endN StepsNoLimit a (Inr c) = Continue b \<Longrightarrow> steps a + 1 < k \<Longrightarrow>
   iteration ctx endN k a (Inr c) = Continue b"
  by (simp add: iteration_def Let_def StepsNoLimit_def split: if_splits)

lemma iteration_Continue_cut:
  "iteration ctx endN StepsNoLimit a (Inr c) = Continue b \<Longrightarrow> 0 < k \<Longrightarrow> steps a + 1 = k \<Longrightarrow>
   iteration ctx endN k a (Inr c)
     = Return (Inr (getNodePath c))
         (a\<lparr>openList := Remove (openList a) c, closedList := Add (closedList a) [c],
            steps := steps a + 1\<rparr>)"
  by (simp add: iteration_def Let_def StepsNoLimit_def split: if_splits)

lemma doFindPath_loop_cut:
  "ms = StepsNoLimit \<Longrightarrow> doFindPath_loop ctx endN ms a = (Inr path, a') \<Longrightarrow>
   0 < k \<Longrightarrow> steps a < k \<Longrightarrow> k < steps a' \<Longrightarrow>
   \<exists>c a''. doFindPath_loop ctx endN k a = (Inr (getNodePath c), a'') \<and> steps a'' = k
     \<and> extractedAt ctx endN a (nat (k - steps a)) = Inr c \<and> \<not> IsEndNode ctx c endN"
proof (induction ctx endN ms a rule: doFindPath_loop.induct)
  case (1 ctx endN ms a)
  note ms = \<open>ms = StepsNoLimit\<close>
  note loop = doFindPath_loop.simps[of ctx endN StepsNoLimit a]
  note loopk = doFindPath_loop.simps[of ctx endN k a]
  have ne: "\<not> IsEmpty (openList a)"
    using "1.prems"(2) ms by (auto simp: loop)
  then obtain c where c: "GetMinFNode (openList a) = Inr c"
    using GetMinFNode_nonempty by blast
  show ?case
  proof (cases "iteration ctx endN StepsNoLimit a (Inr c)")
    case (Return r b)
    then have "steps a' = steps a + 1"
      using ne c "1.prems"(2) ms iteration_Return[OF Return] by (auto simp: loop)
    then show ?thesis using "1.prems" by simp
  next
    case (Continue b)
    note b = iteration_Continue[OF Continue]
    have sb: "steps b = steps a + 1"
      by (subst conjunct1[OF b]) simp
    have adv: "advance ctx endN a = b"
      using c Continue by (simp add: advance_def)
    show ?thesis
    proof (cases "steps a + 1 = k")
      case True
      have "extractedAt ctx endN a (nat (k - steps a)) = Inr c"
        using True c by (simp add: extractedAt_def)
      then show ?thesis
        using ne c b iteration_Continue_cut[OF Continue \<open>0 < k\<close> True] True
        by (simp add: loopk)
    next
      case False
      then have lt: "steps a + 1 < k"
        using "1.prems"(4) by simp
      have "doFindPath_loop ctx endN ms b = (Inr path, a')"
        using ne c Continue "1.prems"(2) ms by (simp add: loop)
      from "1.IH"[OF ne _ ms this \<open>0 < k\<close> _ \<open>k < steps a'\<close>] c Continue ms lt sb
      obtain d a'' where d: "doFindPath_loop ctx endN k b = (Inr (getNodePath d), a'')"
        "steps a'' = k" "extractedAt ctx endN b (nat (k - steps b)) = Inr d"
        "\<not> IsEndNode ctx d endN"
        by auto
      have "nat (k - steps a) - 1 = Suc (nat (k - steps b) - 1)"
        using lt sb by simp
      then have "extractedAt ctx endN a (nat (k - steps a)) = extractedAt ctx endN b (nat (k - steps b))"
        using adv by (simp add: extractedAt_def funpow_swap1)
      then show ?thesis
        using ne c iteration_Continue_budget[OF Continue lt] d by (simp add: loopk)
    qed
  qed
qed

text \<open>
  C4: when the query without budget succeeds after \<open>steps a'\<close> passes of the loop and
  \<open>0 < k < steps a'\<close>, the query with budget \<open>k\<close> returns no error but the path of the
  node taken from the open list in the \<open>k\<close>-th pass, which is the first element of that
  path and does not pass the goal test; the step counter is \<open>k\<close>.
\<close>

theorem budget_returns_kth_extracted:
  assumes "FindPath a ctx startN endN = (Inr path, a')" and "0 < k" and "k < steps a'"
  shows "\<exists>c. fst (FindPathEx a ctx startN endN k) = Inr (getNodePath c)
           \<and> getNodePath c \<noteq> [] \<and> hd (getNodePath c) = c
           \<and> extractedAt ctx endN (beginSearch a startN endN) (nat k) = Inr c
           \<and> \<not> IsEndNode ctx c endN \<and> \<not> samePos c endN
           \<and> steps (snd (FindPathEx a ctx startN endN k)) = k"
proof -
  let ?b = "beginSearch a startN endN"
  obtain r b' where l: "doFindPath_loop ctx endN StepsNoLimit ?b = (r, b')"
    by (cases "doFindPath_loop ctx endN StepsNoLimit ?b")
  then have "r = Inr path" "steps b' = steps a'"
    using assms(1) by (auto simp: FindPath_def doFindPath_def)
  then have "doFindPath_loop ctx endN StepsNoLimit ?b = (Inr path, b')" "k < steps b'"
    using l assms(3) by simp_all
  from doFindPath_loop_cut[OF refl this(1) assms(2) _ this(2)]
  obtain c a'' where c: "doFindPath_loop ctx endN k ?b = (Inr (getNodePath c), a'')"
    "steps a'' = k" "extractedAt ctx endN ?b (nat k) = Inr c" "\<not> IsEndNode ctx c endN"
    using assms(2) by (auto simp: beginSearch_fields)
  moreover from c(4) have "\<not> samePos c endN"
    by (auto simp: IsEndNode_def samePos_def split: if_splits)
  ultimately show ?thesis
    by (auto simp: FindPathEx_def doFindPath_def getNodePath_def)
qed

theorem budget_returns_kth_extracted_witness:
  "positions (FindPath (init (newPathFinder (grid3 []))) None (cell 0 0) (cell 2 2))
       = Inr [(2, 2), (1, 2), (0, 2), (0, 1)]
   \<and> steps (snd (FindPath (init (newPathFinder (grid3 []))) None (cell 0 0) (cell 2 2))) = 5
   \<and> (0 :: int) < 2 \<and> (2 :: int) < 5
   \<and> positions (FindPathEx (init (newPathFinder (grid3 []))) None (cell 0 0) (cell 2 2) 2)
       = Inr [(0, 1)]
   \<and> map_sum id pos
        (extractedAt None (cell 2 2)
           (beginSearch (init (newPathFinder (grid3 []))) (cell 0 0) (cell 2 2)) (nat 2))
       = Inr (0, 1)
   \<and> steps (snd (FindPathEx (init (newPathFinder (grid3 []))) None (cell 0 0) (cell 2 2) 2)) = 2"
proof -
  let ?E = "init (newPathFinder (grid3 []))"
  have v: "positions (FindPath ?E None (cell 0 0) (cell 2 2)) = Inr [(2, 2), (1, 2), (0, 2), (0, 1)]"
    by code_simp
  have s: "steps (snd (FindPath ?E None (cell 0 0) (cell 2 2))) = 5"
    by code_simp
  have w: "positions (FindPathEx ?E None (cell 0 0) (cell 2 2) 2) = Inr [(0, 1)]"
    by code_simp
  have x: "map_sum id pos (extractedAt None (cell 2 2) (beginSearch ?E (cell 0 0) (cell 2 2)) (nat 2))
             = Inr (0, 1)"
    by code_simp
  obtain path a' where f: "FindPath ?E None (cell 0 0) (cell 2 2) = (Inr path, a')"
    using v by (cases "FindPath ?E None (cell 0 0) (cell 2 2)"; cases "fst (FindPath ?E None (cell 0 0) (cell 2 2))")
      (simp_all add: positions_def)
  have k: "(2::int) < steps a'"
    using f s by simp
  from budget_returns_kth_extracted[OF f _ k]
  have "steps (snd (FindPathEx ?E None (cell 0 0) (cell 2 2) 2)) = 2"
    by auto
  then show ?thesis
    using v s w x by simp
qed

section \<open>The grid without obstacles\<close>

text \<open>
  Two nodes are 4-adjacent when they differ by one in exactly one coordinate; a sequence
  is contiguous when every consecutive pair is.
\<close>

definition adjacent :: "Node \<Rightarrow> Node \<Rightarrow> bool" where
  "adjacent n m = (\<bar>X n - X m\<bar> + \<bar>Y n - Y m\<bar> = 1)"

fun contiguous :: "Node list \<Rightarrow> bool" where
  "contiguous (n # m # l) = (adjacent n m \<and> contiguous (m # l))"
| "contiguous l = True"

text \<open>
  The invariant of the search on a grid without obstacles and weights. Every scored node
  has \<open>g = 1\<close>, so the open list is ordered by the distance to the end node alone. When
  \<open>p\<close> is the node expanded last, every open node is at most one step nearer to the end
  node than \<open>p\<close>, the nearest ones are neighbours and successors of \<open>p\<close>, there is one of
  them, and no closed node is nearer than \<open>p\<close>. \<open>trail\<close> describes the path that leads to
  \<open>p\<close>.
\<close>

definition trail :: "Node \<Rightarrow> Node \<Rightarrow> Node \<Rightarrow> bool" where
  "trail startN endN p =
     (int (length (tailPath p)) + H p endN = H startN endN
      \<and> contiguous (tailPath p @ [startN])
      \<and> (tailPath p = [] \<longrightarrow> samePos p startN)
      \<and> (tailPath p \<noteq> [] \<longrightarrow> hd (tailPath p) = p)
      \<and> (\<forall>m \<in> set (tailPath p). \<not> samePos m startN))"

definition openOK :: "Config \<Rightarrow> Node \<Rightarrow> Node \<Rightarrow> Node \<Rightarrow> bool" where
  "openOK cfg endN p n =
     (f n = 1 + H n endN \<and> H p endN - 1 \<le> H n endN \<and> inBounds cfg n
      \<and> (H n endN = H p endN - 1 \<longrightarrow> parent n = Some p \<and> adjacent n p))"

definition greedyInv :: "Node \<Rightarrow> Node \<Rightarrow> PathFinder \<Rightarrow> Node \<Rightarrow> bool" where
  "greedyInv startN endN a p =
     (WeightedNodes (config a) = [] \<and> endNode a = endN \<and> inBounds (config a) endN
      \<and> 1 \<le> H p endN
      \<and> (\<forall>n \<in> set (closedList a). H p endN \<le> H n endN)
      \<and> (\<forall>n \<in> set (openList a). openOK (config a) endN p n)
      \<and> (\<exists>n \<in> set (openList a). H n endN = H p endN - 1)
      \<and> trail startN endN p)"

text \<open>The neighbour of \<open>c\<close> that \<^verbatim>\<open>GetNeighborNodes\<close> builds in the direction of \<open>endN\<close>.\<close>

definition toward :: "Node \<Rightarrow> Node \<Rightarrow> Node" where
  "toward c endN =
     (if X c < X endN then Node 0 0 0 (X c + 1) (Y c) 0 (Some c)
      else if X endN < X c then Node 0 0 0 (X c - 1) (Y c) 0 (Some c)
      else if Y c < Y endN then Node 0 0 0 (X c) (Y c + 1) 0 (Some c)
      else Node 0 0 0 (X c) (Y c - 1) 0 (Some c))"

lemma H_samePos: "samePos n m \<Longrightarrow> H n e = H m e"
  by (simp add: H_def samePos_def)

lemma H_zero: "H n e = 0 \<longleftrightarrow> samePos n e"
  by (auto simp: H_def samePos_def)

lemma H_nonneg: "0 \<le> H n e"
  by (simp add: H_def)

lemma toward_H: "1 \<le> H c endN \<Longrightarrow> H (toward c endN) endN = H c endN - 1"
  by (auto simp: toward_def H_def)

lemma toward_inBounds:
  "inBounds cfg c \<Longrightarrow> inBounds cfg endN \<Longrightarrow> 1 \<le> H c endN \<Longrightarrow> inBounds cfg (toward c endN)"
  by (auto simp: toward_def inBounds_def H_def)

lemma toward_neighbor:
  "isAccessible a ctx (toward c endN) \<Longrightarrow> toward c endN \<in> set (GetNeighborNodes a ctx c)"
  by (auto simp: toward_def GetNeighborNodes_def Let_def)

lemma isAccessible_None:
  "isAccessible a None n = (inBounds (config a) n \<and> \<not> Contains (closedList a) n)"
  by (auto simp: isAccessible_def inBounds_def)

lemma Contains_iff: "Contains l n = (\<exists>m \<in> set l. samePos m n)"
  by (simp add: Contains_def list_ex_iff)

lemma calculateNode_unweighted:
  "WeightedNodes (config a) = [] \<Longrightarrow> g n = 0 \<Longrightarrow>
   f (calculateNode a n) = 1 + H n (endNode a) \<and> g (calculateNode a n) = 1"
  by (simp add: calculateNode_def Let_def H_def)

lemma H_calculateNode [simp]: "H (calculateNode a n) e = H n e"
  by (simp add: H_def)

lemma trail_step:
  assumes "trail startN endN p" "parent c = Some p" "adjacent c p" "H c endN = H p endN - 1"
  shows "trail startN endN c \<and> tailPath c = getNodePath c"
proof -
  have tc: "tailPath c = c # tailPath p"
    using assms(2) by (simp add: tailPath_def getNodePath_Some)
  have le: "H p endN \<le> H startN endN"
    using assms(1) by (simp add: trail_def)
  have "\<not> samePos c startN"
    using H_samePos[of c startN endN] assms(4) le by auto
  moreover have "contiguous (c # tailPath p @ [startN])"
  proof (cases "tailPath p")
    case Nil
    then have "samePos p startN" using assms(1) by (simp add: trail_def)
    then have "adjacent c startN" using assms(3) by (simp add: adjacent_def samePos_def)
    then show ?thesis using Nil by simp
  next
    case (Cons q l)
    then have "q = p" using assms(1) by (simp add: trail_def)
    then show ?thesis using Cons assms(1,3) by (simp add: trail_def)
  qed
  ultimately show ?thesis
    using assms(1,4) tc by (simp add: trail_def tailPath_def assms(2))
qed

lemma expand_greedyInv:
  assumes w: "WeightedNodes (config a3) = []" and e: "endNode a3 = endN"
    and be: "inBounds (config a3) endN" and bc: "inBounds (config a3) c"
    and hc: "1 \<le> H c endN"
    and cl: "\<forall>n \<in> set (closedList a3). H c endN \<le> H n endN"
    and op: "\<forall>n \<in> set (openList a3). f n = 1 + H n endN \<and> H c endN \<le> H n endN
               \<and> inBounds (config a3) n"
    and tr: "trail startN endN c"
  shows "greedyInv startN endN (foldl visitNeighbor a3 (GetNeighborNodes a3 None c)) c"
proof -
  let ?ns = "GetNeighborNodes a3 None c"
  let ?a' = "foldl visitNeighbor a3 ?ns"
  have opn: "openOK (config a3) endN c n" if "n \<in> set (openList ?a')" for n
  proof -
    from foldl_visitNeighbor_open[OF that]
    consider "n \<in> set (openList a3)" | nb where "nb \<in> set ?ns" "n = calculateNode a3 nb"
      by blast
    then show ?thesis
    proof cases
      case 1
      then show ?thesis using op by (auto simp: openOK_def)
    next
      case 2
      note nb = GetNeighborNodes_props[OF 2(1)]
      have "f n = 1 + H n endN"
        using calculateNode_unweighted[OF w, of nb] nb e 2(2) by simp
      moreover have "inBounds (config a3) n"
        using nb isAccessible_inBounds[of a3 None nb] 2(2) by (simp add: inBounds_def)
      moreover have "adjacent n c" "parent n = Some c"
        using nb 2(2) by (simp_all add: adjacent_def)
      moreover have "H c endN - 1 \<le> H n endN"
        using \<open>adjacent n c\<close> by (auto simp: adjacent_def H_def)
      ultimately show ?thesis by (simp add: openOK_def)
    qed
  qed
  let ?m = "toward c endN"
  have hm: "H ?m endN = H c endN - 1"
    using hc by (rule toward_H)
  have "\<not> Contains (closedList a3) ?m"
    using cl hm H_samePos[of _ ?m endN] by (fastforce simp: Contains_iff)
  then have acc: "isAccessible a3 None ?m"
    using toward_inBounds[OF bc be hc] by (simp add: isAccessible_None)
  then have "Contains (openList ?a') ?m"
    using toward_neighbor isAccessible_not_closed foldl_visitNeighbor_covers by blast
  then obtain n where "n \<in> set (openList ?a')" "samePos n ?m"
    by (auto simp: Contains_iff)
  then have ex: "\<exists>n \<in> set (openList ?a'). H n endN = H c endN - 1"
    using hm H_samePos[of n ?m endN] by auto
  show ?thesis
    using w e be hc cl opn ex tr by (simp add: greedyInv_def)
qed

definition shortest :: "Node \<Rightarrow> Node \<Rightarrow> Node list \<Rightarrow> bool" where
  "shortest startN endN path =
     (int (length path) = H startN endN \<and> contiguous (path @ [startN])
      \<and> samePos (hd path) endN \<and> (\<forall>m \<in> set path. \<not> samePos m startN))"

lemma greedy_loop:
  "greedyInv startN endN a p \<Longrightarrow> nat (H p endN) = k \<Longrightarrow>
   \<exists>path a'. doFindPath_loop None endN StepsNoLimit a = (Inr path, a') \<and> shortest startN endN path"
proof (induction k arbitrary: a p)
  case 0
  then show ?case by (simp add: greedyInv_def)
next
  case (Suc k)
  note inv = Suc.prems(1)
  note loop = doFindPath_loop.simps[of None endN StepsNoLimit a]
  from inv obtain n0 where n0: "n0 \<in> set (openList a)" "H n0 endN = H p endN - 1"
    by (auto simp: greedyInv_def)
  then have ne: "\<not> IsEmpty (openList a)"
    by (auto simp: IsEmpty_def)
  then obtain c where c: "GetMinFNode (openList a) = Inr c"
    using GetMinFNode_nonempty by blast
  have cin: "c \<in> set (openList a)"
    using c by (rule GetMinFNode_mem)
  have ok: "openOK (config a) endN p n" if "n \<in> set (openList a)" for n
    using inv that by (simp add: greedyInv_def)
  have "f c \<le> f n0"
    using c n0(1) by (rule GetMinFNode_le)
  then have hc: "H c endN = H p endN - 1"
    using ok[OF cin] ok[OF n0(1)] n0(2) by (simp add: openOK_def)
  then have par: "parent c = Some p" "adjacent c p" and bc: "inBounds (config a) c"
    using ok[OF cin] by (simp_all add: openOK_def)
  have "trail startN endN p"
    using inv by (simp add: greedyInv_def)
  from trail_step[OF this par hc]
  have tr: "trail startN endN c" and tp: "tailPath c = getNodePath c"
    by simp_all
  let ?a3 = "a\<lparr>openList := Remove (openList a) c, closedList := Add (closedList a) [c],
                steps := steps a + 1\<rparr>"
  show ?case
  proof (cases "H c endN = 0")
    case True
    then have "IsEndNode None c endN"
      by (simp add: IsEndNode_def H_zero samePos_def)
    then have "doFindPath_loop None endN StepsNoLimit a = (Inr (getNodePath c), ?a3)"
      using ne c by (simp add: loop iteration_def Let_def)
    moreover have "shortest startN endN (getNodePath c)"
      using tr tp True by (simp add: shortest_def trail_def getNodePath_def H_zero)
    ultimately show ?thesis by blast
  next
    case False
    then have h1: "1 \<le> H c endN"
      using H_nonneg[of c endN] by simp
    then have "\<not> IsEndNode None c endN"
      using H_zero[of c endN] by (auto simp: IsEndNode_def samePos_def)
    then have it: "iteration None endN StepsNoLimit a (Inr c)
                   = Continue (foldl visitNeighbor ?a3 (GetNeighborNodes ?a3 None c))"
      by (simp add: iteration_def Let_def StepsNoLimit_def)
    have cl: "\<forall>n \<in> set (closedList ?a3). H c endN \<le> H n endN"
      using inv hc by (auto simp: greedyInv_def Add_def)
    have op: "\<forall>n \<in> set (openList ?a3). f n = 1 + H n endN \<and> H c endN \<le> H n endN
               \<and> inBounds (config ?a3) n"
      using ok hc set_Remove_subset[of "openList a" c] by (auto simp: openOK_def)
    have "greedyInv startN endN (foldl visitNeighbor ?a3 (GetNeighborNodes ?a3 None c)) c"
      using inv bc by (intro expand_greedyInv h1 cl op tr) (simp_all add: greedyInv_def)
    moreover have "nat (H c endN) = k"
      using Suc.prems(2) hc by simp
    ultimately obtain path a' where
      "doFindPath_loop None endN StepsNoLimit (foldl visitNeighbor ?a3 (GetNeighborNodes ?a3 None c))
         = (Inr path, a')" "shortest startN endN path"
      using Suc.IH by blast
    then show ?thesis
      using ne c it by (simp add: loop)
  qed
qed

lemma contiguous_snoc:
  "contiguous (path @ [s]) \<Longrightarrow> path \<noteq> [] \<Longrightarrow> contiguous path \<and> adjacent (last path) s"
  by (induction path rule: contiguous.induct) simp_all

text \<open>
  C3, as the code has it: on a path finder with empty lists (no invalid nodes) and no
  weighted nodes, without context, for a start node without predecessor and start and end
  inside the grid: when start and end are different cells, \<^verbatim>\<open>FindPath\<close> returns a
  sequence as long as their Manhattan distance, contiguous, whose first element is at the
  end node, whose last element is adjacent to the start node, and which does not hold the
  cell of the start node; when they are the same cell, it returns the start node alone.
\<close>

theorem FindPath_open_grid:
  assumes "openList a = []" and "closedList a = []" and "WeightedNodes (config a) = []"
    and "inBounds (config a) startN" and "inBounds (config a) endN" and "parent startN = None"
  shows "(\<not> samePos startN endN \<longrightarrow>
            (\<exists>path. fst (FindPath a None startN endN) = Inr path
               \<and> int (length path) = H startN endN
               \<and> contiguous path \<and> adjacent (last path) startN
               \<and> samePos (hd path) endN
               \<and> (\<forall>m \<in> set path. \<not> samePos m startN)))
       \<and> (samePos startN endN \<longrightarrow> fst (FindPath a None startN endN) = Inr [startN])"
proof (intro conjI impI)
  assume "samePos startN endN"
  then have "IsEndNode None startN endN"
    by (simp add: IsEndNode_def samePos_def)
  then show "fst (FindPath a None startN endN) = Inr [startN]"
    using assms(1,6) by (intro FindPath_start_is_goal)
next
  assume ns: "\<not> samePos startN endN"
  let ?b = "beginSearch a startN endN"
  let ?a3 = "?b\<lparr>openList := Remove (openList ?b) startN,
                  closedList := Add (closedList ?b) [startN], steps := steps ?b + 1\<rparr>"
  let ?a' = "foldl visitNeighbor ?a3 (GetNeighborNodes ?a3 None startN)"
  have opn: "openList ?b = [startN]"
    using assms(1) by (simp add: beginSearch_fields)
  then have ne: "\<not> IsEmpty (openList ?b)" and c: "GetMinFNode (openList ?b) = Inr startN"
    by (simp_all add: IsEmpty_def)
  have "\<not> IsEndNode None startN endN"
    using ns by (simp add: IsEndNode_def samePos_def)
  then have it: "iteration None endN StepsNoLimit ?b (Inr startN) = Continue ?a'"
    by (simp add: iteration_def Let_def StepsNoLimit_def)
  have h1: "1 \<le> H startN endN"
    using ns H_zero[of startN endN] H_nonneg[of startN endN] by simp
  have tr: "trail startN endN startN"
    using assms(6) by (simp add: trail_def tailPath_def samePos_def)
  have "greedyInv startN endN ?a' startN"
    using assms(2-5) opn by (intro expand_greedyInv h1 tr) (simp_all add: beginSearch_fields Add_def samePos_refl)
  from greedy_loop[OF this refl]
  obtain path a' where p: "doFindPath_loop None endN StepsNoLimit ?a' = (Inr path, a')"
    "shortest startN endN path"
    by blast
  have "fst (FindPath a None startN endN) = Inr path"
    using ne c it p(1)
    by (simp add: FindPath_def fst_doFindPath doFindPath_loop.simps[of None endN StepsNoLimit ?b])
  moreover have "path \<noteq> []"
    using p(2) h1 by (auto simp: shortest_def)
  ultimately show "\<exists>path. fst (FindPath a None startN endN) = Inr path
               \<and> int (length path) = H startN endN
               \<and> contiguous path \<and> adjacent (last path) startN
               \<and> samePos (hd path) endN
               \<and> (\<forall>m \<in> set path. \<not> samePos m startN)"
    using p(2) contiguous_snoc[of path startN] by (auto simp: shortest_def)
qed

theorem FindPath_open_grid_witness:
  "openList (init (newPathFinder (grid3 []))) = []
   \<and> closedList (init (newPathFinder (grid3 []))) = []
   \<and> WeightedNodes (config (init (newPathFinder (grid3 [])))) = []
   \<and> inBounds (config (init (newPathFinder (grid3 [])))) (cell 0 0)
   \<and> inBounds (config (init (newPathFinder (grid3 [])))) (cell 2 2)
   \<and> parent (cell 0 0) = None
   \<and> \<not> samePos (cell 0 0) (cell 2 2)
   \<and> H (cell 0 0) (cell 2 2) = 4
   \<and> positions (FindPath (init (newPathFinder (grid3 []))) None (cell 0 0) (cell 2 2))
       = Inr [(2, 2), (1, 2), (0, 2), (0, 1)]
   \<and> (case fst (FindPath (init (newPathFinder (grid3 []))) None (cell 0 0) (cell 2 2)) of
         Inl e \<Rightarrow> False
       | Inr path \<Rightarrow> int (length path) = 4 \<and> contiguous path \<and> adjacent (last path) (cell 0 0)
           \<and> samePos (hd path) (cell 2 2))"
proof -
  let ?E = "init (newPathFinder (grid3 []))"
  have hyps: "openList ?E = []" "closedList ?E = []" "WeightedNodes (config ?E) = []"
    "inBounds (config ?E) (cell 0 0)" "inBounds (config ?E) (cell 2 2)" "parent (cell 0 0) = None"
    by (simp_all add: init_def newPathFinder_def grid3_def Add_def inBounds_def cell_def)
  have ns: "\<not> samePos (cell 0 0) (cell 2 2)" and d: "H (cell 0 0) (cell 2 2) = 4"
    by (simp_all add: samePos_def H_def cell_def)
  have v: "positions (FindPath ?E None (cell 0 0) (cell 2 2)) = Inr [(2, 2), (1, 2), (0, 2), (0, 1)]"
    by code_simp
  from FindPath_open_grid[OF hyps] ns d
  obtain path where "fst (FindPath ?E None (cell 0 0) (cell 2 2)) = Inr path"
    "int (length path) = 4" "contiguous path" "adjacent (last path) (cell 0 0)"
    "samePos (hd path) (cell 2 2)"
    by auto
  then show ?thesis
    using hyps ns d v by simp
qed

text \<open>
  C3, as the spec has it, fails when start and end are the same cell: the Manhattan
  distance is 0 and the returned sequence has one element.
\<close>

theorem FindPath_start_equals_end_counterexample:
  "New (grid3 []) = Inr (init (newPathFinder (grid3 [])))
   \<and> InvalidNodes (grid3 []) = [] \<and> WeightedNodes (grid3 []) = []
   \<and> inBounds (grid3 []) (cell 1 1)
   \<and> fst (FindPath (init (newPathFinder (grid3 []))) None (cell 1 1) (cell 1 1)) = Inr [cell 1 1]
   \<and> length [cell 1 1] = 1
   \<and> H (cell 1 1) (cell 1 1) = 0"
  by code_simp

end
